theory Spec2Isabelle
  imports Complex_Main
begin

section \<open>Data model\<close>

text \<open>
  The event documents of the \<open>events\<close> collection (\<open>event.model.ts\<close>). A \<open>Date\<close> is
  its time value in milliseconds. The collection is filled from outside the program, so
  \<open>platform\<close> and \<open>type\<close> are kept as the strings the store holds.
\<close>

record PageViewContent =
  path :: string
  hostname :: string

record EventDocument =
  user_id :: string
  platform :: string
  type :: string
  date :: int
  content :: PageViewContent

text \<open>
  \<open>funnel.types.ts\<close>. The TypeScript type of \<open>matchType\<close> is \<open>'path' | 'hostname'\<close>;
  at run time it is whatever string the request carried.
\<close>

record FunnelStepConfig =
  name :: string
  matchType :: string
  matchValue :: string

record FunnelAnalysisRequest =
  steps :: "FunnelStepConfig list"
  startDate :: string
  endDate :: string

record FunnelStepResult =
  step :: string
  stepIndex :: nat
  users :: nat
  conversionRate :: real
  dropoffRate :: real
  stepConversionRate :: real

record FunnelSummary =
  totalUsers :: nat
  completedUsers :: nat
  overallConversionRate :: real
  avgStepConversionRate :: real

record FunnelAnalysisResult =
  result_steps :: "FunnelStepResult list"
  summary :: FunnelSummary

section \<open>The event store\<close>

text \<open>
  The \<open>matchConditions\<close> object that \<open>getUsersForStep\<close> builds: one field per key
  it may set; \<open>None\<close> is a key that was not set.
\<close>

record MatchConditions =
  q_platform :: string
  q_type :: string
  q_user_id_in :: "string list option"
  q_date :: "(int \<times> int) option"
  q_content_path :: "string option"
  q_content_hostname :: "string option"

text \<open>
  The collection: the documents it holds and the \<open>$match\<close> stages of the aggregations
  issued so far. No operation of the repository writes \<open>events\<close>.
\<close>

record Collection =
  events :: "EventDocument list"
  issued :: "MatchConditions list"

text \<open>The \<open>$match\<close> stage: every key that is set must hold of the document.\<close>

definition matchStage :: "MatchConditions \<Rightarrow> EventDocument \<Rightarrow> bool" where
  "matchStage q ev =
     (platform ev = q_platform q \<and> type ev = q_type q \<and>
      (case q_user_id_in q of None \<Rightarrow> True | Some us \<Rightarrow> user_id ev \<in> set us) \<and>
      (case q_date q of None \<Rightarrow> True | Some (gte, lte) \<Rightarrow> gte \<le> date ev \<and> date ev \<le> lte) \<and>
      (case q_content_path q of None \<Rightarrow> True | Some p \<Rightarrow> path (content ev) = p) \<and>
      (case q_content_hostname q of None \<Rightarrow> True | Some h \<Rightarrow> hostname (content ev) = h))"

text \<open>
  \<open>aggregate([$match, $group by user_id, $project user_id]).toArray()\<close>: one entry per
  distinct \<open>user_id\<close> among the matching documents, in an order that the documents
  fix. The call is recorded in \<open>issued\<close>. The store always answers: a query that
  fails for infrastructure reasons is outside this model.
\<close>

definition aggregate :: "MatchConditions \<Rightarrow> Collection \<Rightarrow> string list \<times> Collection" where
  "aggregate q c =
     (remdups (map user_id (filter (matchStage q) (events c))),
      c\<lparr>issued := issued c @ [q]\<rparr>)"

section \<open>Errors\<close>

datatype error =
    AtLeastOneStep
  | InvalidDateFormat
  | InvalidStepIndex int
  | NoStepsProvided
  | StepUndefined nat

text \<open>Decimal rendering of the integers that the messages interpolate.\<close>

function show_nat :: "nat \<Rightarrow> string" where
  "show_nat n =
     (if n < 10 then [''0123456789'' ! n]
      else show_nat (n div 10) @ [''0123456789'' ! (n mod 10)])"
  by pat_completeness auto
termination
  by (relation "measure id") auto

declare show_nat.simps [simp del]

definition show_int :: "int \<Rightarrow> string" where
  "show_int i = (if i < 0 then CHR ''-'' # show_nat (nat (- i)) else show_nat (nat i))"

fun message :: "error \<Rightarrow> string" where
  "message AtLeastOneStep = ''At least one funnel step is required''"
| "message InvalidDateFormat = ''Invalid date format''"
| "message (InvalidStepIndex i) = ''Invalid step index: '' @ show_int i"
| "message NoStepsProvided = ''No steps provided''"
| "message (StepUndefined i) = ''Step at index '' @ show_nat i @ '' is undefined''"

section \<open>EventRepository\<close>

text \<open>
  \<open>getUsersForStep(step, startDate, endDate, previousStepUsers?)\<close>. The optional
  argument is \<open>None\<close> when it is left out. The \<open>user_id\<close> key is set only for a
  supplied array of length above 0.
\<close>

definition getUsersForStep ::
  "FunnelStepConfig \<Rightarrow> int \<Rightarrow> int \<Rightarrow> string list option \<Rightarrow> Collection
     \<Rightarrow> string list \<times> Collection" where
  "getUsersForStep st start end previousStepUsers c =
     (let m0 = \<lparr>q_platform = ''web'', q_type = ''page_view'', q_user_id_in = None,
                 q_date = None, q_content_path = None, q_content_hostname = None\<rparr>;
          m1 = (case previousStepUsers of
                  Some us \<Rightarrow> if length us > 0 then m0\<lparr>q_user_id_in := Some us\<rparr> else m0
                | None \<Rightarrow> m0);
          m2 = m1\<lparr>q_date := Some (start, end)\<rparr>;
          m3 = (if matchType st = ''path''
                then m2\<lparr>q_content_path := Some (matchValue st)\<rparr>
                else m2\<lparr>q_content_hostname := Some (matchValue st)\<rparr>)
      in aggregate m3 c)"

text \<open>
  The loop \<open>for (let i = 1; i <= stepIndex; i++)\<close> of
  \<open>getUsersCompletingSequentialSteps\<close>, with \<open>usersAtCurrentStep\<close> as accumulator.
\<close>

function sequentialLoop ::
  "FunnelStepConfig list \<Rightarrow> nat \<Rightarrow> nat \<Rightarrow> int \<Rightarrow> int \<Rightarrow> string list \<Rightarrow> Collection
     \<Rightarrow> (error + string list) \<times> Collection" where
  "sequentialLoop sts i stepIdx start end usersAtCurrentStep c =
     (if i \<le> stepIdx then
        (if i < length sts then
           (case getUsersForStep (sts ! i) start end (Some usersAtCurrentStep) c of
              (us, c') \<Rightarrow> sequentialLoop sts (Suc i) stepIdx start end us c')
         else (Inl (StepUndefined i), c))
      else (Inr usersAtCurrentStep, c))"
  by pat_completeness auto
termination
  by (relation "measure (\<lambda>(sts, i, stepIdx, start, end, us, c). Suc stepIdx - i)") auto

declare sequentialLoop.simps [simp del]

definition getUsersCompletingSequentialSteps ::
  "FunnelStepConfig list \<Rightarrow> int \<Rightarrow> int \<Rightarrow> int \<Rightarrow> Collection
     \<Rightarrow> (error + string list) \<times> Collection" where
  "getUsersCompletingSequentialSteps sts stepIdx start end c =
     (if stepIdx < 0 \<or> stepIdx \<ge> int (length sts) then (Inl (InvalidStepIndex stepIdx), c)
      else case sts of
        [] \<Rightarrow> (Inl NoStepsProvided, c)
      | firstStep # _ \<Rightarrow>
          if stepIdx = 0 then
            (case getUsersForStep firstStep start end None c of (us, c') \<Rightarrow> (Inr us, c'))
          else
            (case getUsersForStep firstStep start end None c of
               (us, c') \<Rightarrow> sequentialLoop sts 1 (nat stepIdx) start end us c'))"

section \<open>EventService\<close>

text \<open>
  The main loop of \<open>analyzeFunnel\<close>, with \<open>stepResults\<close> and \<open>previousUsers\<close> as
  accumulators. A rejected repository call ends the analysis with its error. The rates
  are JavaScript numbers, taken here as exact reals.
\<close>

function analyzeLoop ::
  "FunnelStepConfig list \<Rightarrow> nat \<Rightarrow> int \<Rightarrow> int \<Rightarrow> FunnelStepResult list \<Rightarrow> nat \<Rightarrow> Collection
     \<Rightarrow> (error + FunnelStepResult list) \<times> Collection" where
  "analyzeLoop sts i start end stepResults previousUsers c =
     (if i < length sts then
        (case getUsersCompletingSequentialSteps sts (int i) start end c of
           (Inl err, c') \<Rightarrow> (Inl err, c')
         | (Inr us, c') \<Rightarrow>
             (let userCount = length us;
                  total = (if i = 0 then userCount
                           else (case stepResults of [] \<Rightarrow> 0 | r # _ \<Rightarrow> users r));
                  convRate = (if total > 0 then (real userCount / real total) * 100 else 0);
                  stepConvRate = (if i = 0 \<or> previousUsers = 0 then 100
                                  else (real userCount / real previousUsers) * 100);
                  dropoff = 100 - stepConvRate
              in analyzeLoop sts (Suc i) start end
                   (stepResults @
                      [\<lparr>step = name (sts ! i), stepIndex = i, users = userCount,
                        conversionRate = convRate,
                        dropoffRate = (if i = 0 then 0 else dropoff),
                        stepConversionRate = stepConvRate\<rparr>])
                   userCount c'))
      else (Inr stepResults, c))"
  by pat_completeness auto
termination
  by (relation "measure (\<lambda>(sts, i, start, end, rs, p, c). length sts - i)") auto

declare analyzeLoop.simps [simp del]

text \<open>The summary statistics computed after the loop.\<close>

definition summarize :: "FunnelStepResult list \<Rightarrow> FunnelSummary" where
  "summarize stepResults =
     (let total = (case stepResults of [] \<Rightarrow> 0 | r # _ \<Rightarrow> users r);
          completed = (if stepResults = [] then 0 else users (last stepResults));
          overall = (if total > 0 then (real completed / real total) * 100 else 0);
          stepConversionRates = map stepConversionRate (drop 1 stepResults);
          avg = (if length stepConversionRates > 0
                 then foldl (+) 0 stepConversionRates / real (length stepConversionRates)
                 else 100)
      in \<lparr>totalUsers = total, completedUsers = completed,
          overallConversionRate = overall, avgStepConversionRate = avg\<rparr>)"

text \<open>
  \<open>analyzeFunnel(request)\<close>. \<open>parseDate\<close> stands for \<open>new Date(s).getTime()\<close>:
  \<open>None\<close> when the time value is \<open>NaN\<close>.
\<close>

definition analyzeFunnel ::
  "(string \<Rightarrow> int option) \<Rightarrow> FunnelAnalysisRequest \<Rightarrow> Collection
     \<Rightarrow> (error + FunnelAnalysisResult) \<times> Collection" where
  "analyzeFunnel parseDate request c =
     (if length (steps request) = 0 then (Inl AtLeastOneStep, c)
      else case (parseDate (startDate request), parseDate (endDate request)) of
        (Some startDateTime, Some endDateTime) \<Rightarrow>
          (case analyzeLoop (steps request) 0 startDateTime endDateTime [] 0 c of
             (Inl err, c') \<Rightarrow> (Inl err, c')
           | (Inr stepResults, c') \<Rightarrow>
               (Inr \<lparr>result_steps = stepResults, summary = summarize stepResults\<rparr>, c'))
      | _ \<Rightarrow> (Inl InvalidDateFormat, c))"

section \<open>The sequential chain, by index\<close>

text \<open>
  The list that \<open>getUsersCompletingSequentialSteps\<close> returns at index \<open>i\<close>, written as
  a recursion on the index: the first call of \<open>getUsersForStep\<close> without
  \<open>previousStepUsers\<close>, then one call for each pass of the loop with the list of the
  pass before. Only the documents of the collection are read.
\<close>

fun sequentialUsers ::
  "Collection \<Rightarrow> FunnelStepConfig list \<Rightarrow> int \<Rightarrow> int \<Rightarrow> nat \<Rightarrow> string list" where
  "sequentialUsers c sts start end 0 = fst (getUsersForStep (sts ! 0) start end None c)"
| "sequentialUsers c sts start end (Suc i) =
     fst (getUsersForStep (sts ! Suc i) start end (Some (sequentialUsers c sts start end i)) c)"

section \<open>The incremental fold of the specification\<close>

text \<open>
  The Step Resolver as the specification words it (section 4.1): the de-duplicated
  \<open>user_id\<close>s of the events with platform \<open>web\<close> and type \<open>page_view\<close>, dated within
  the window, whose path (for \<open>matchType = path\<close>) or hostname (for
  \<open>matchType = hostname\<close>) equals \<open>matchValue\<close>, candidate-filtered if a candidate set
  is provided.
\<close>

definition spec_resolveStepUsers ::
  "EventDocument list \<Rightarrow> FunnelStepConfig \<Rightarrow> int \<Rightarrow> int \<Rightarrow> string list option
     \<Rightarrow> string list" where
  "spec_resolveStepUsers evs st start end candidateUsers =
     remdups (map user_id (filter
       (\<lambda>ev. platform ev = ''web'' \<and> type ev = ''page_view'' \<and>
             start \<le> date ev \<and> date ev \<le> end \<and>
             (matchType st = ''path'' \<and> path (content ev) = matchValue st \<or>
              matchType st = ''hostname'' \<and> hostname (content ev) = matchValue st) \<and>
             (case candidateUsers of None \<Rightarrow> True | Some us \<Rightarrow> user_id ev \<in> set us))
       evs))"

text \<open>
  The core loop of the specification (section 4.2): \<open>candidates(0)\<close> is resolved with
  no restriction, and \<open>candidates(i)\<close> for \<open>i > 0\<close> is resolved with
  \<open>candidates(i - 1)\<close> passed as the candidate set.
\<close>

fun spec_candidates ::
  "EventDocument list \<Rightarrow> FunnelStepConfig list \<Rightarrow> int \<Rightarrow> int \<Rightarrow> nat \<Rightarrow> string list" where
  "spec_candidates evs sts start end 0 = spec_resolveStepUsers evs (sts ! 0) start end None"
| "spec_candidates evs sts start end (Suc i) =
     spec_resolveStepUsers evs (sts ! Suc i) start end
       (Some (spec_candidates evs sts start end i))"

text \<open>
  The loop invariant of \<open>analyzeLoop\<close>: what row \<open>k\<close> of the accumulated
  \<open>stepResults\<close> holds, in terms of the rows before it.
\<close>

definition row_inv ::
  "Collection \<Rightarrow> FunnelStepConfig list \<Rightarrow> int \<Rightarrow> int \<Rightarrow> FunnelStepResult list \<Rightarrow> nat \<Rightarrow> bool" where
  "row_inv c sts start end rs k =
     (step (rs ! k) = name (sts ! k) \<and> stepIndex (rs ! k) = k \<and>
      users (rs ! k) = length (sequentialUsers c sts start end k) \<and>
      conversionRate (rs ! k) =
        (if users (rs ! 0) > 0 then real (users (rs ! k)) / real (users (rs ! 0)) * 100 else 0) \<and>
      stepConversionRate (rs ! k) =
        (if k = 0 \<or> users (rs ! (k - 1)) = 0 then 100
         else real (users (rs ! k)) / real (users (rs ! (k - 1))) * 100) \<and>
      dropoffRate (rs ! k) = (if k = 0 then 0 else 100 - stepConversionRate (rs ! k)))"

section \<open>Sample data\<close>

text \<open>
  Steps, page views and a date parser for the concrete runs below. The two date strings
  are those of the service tests; the parser knows only them.
\<close>

definition homepage :: FunnelStepConfig where
  "homepage = \<lparr>name = ''Homepage'', matchType = ''path'', matchValue = ''/''\<rparr>"

definition pricing :: FunnelStepConfig where
  "pricing = \<lparr>name = ''Pricing'', matchType = ''path'', matchValue = ''/pricing''\<rparr>"

definition main_site :: FunnelStepConfig where
  "main_site =
     \<lparr>name = ''Main Site'', matchType = ''hostname'', matchValue = ''www.trainwell.net''\<rparr>"

definition regex_step :: FunnelStepConfig where
  "regex_step = \<lparr>name = ''Any'', matchType = ''regex'', matchValue = ''www.trainwell.net''\<rparr>"

definition view :: "string \<Rightarrow> int \<Rightarrow> string \<Rightarrow> EventDocument" where
  "view u d p =
     \<lparr>user_id = u, platform = ''web'', type = ''page_view'', date = d,
      content = \<lparr>path = p, hostname = ''www.trainwell.net''\<rparr>\<rparr>"

definition jan_start :: int where
  "jan_start = 1735689600000"

definition jan_end :: int where
  "jan_end = 1738367999000"

definition sample_parse :: "string \<Rightarrow> int option" where
  "sample_parse s =
     (if s = ''2025-01-01T00:00:00Z'' then Some jan_start
      else if s = ''2025-01-31T23:59:59Z'' then Some jan_end
      else None)"

definition sample_store :: Collection where
  "sample_store =
     \<lparr>events = [view ''u1'' 1736000000000 ''/'', view ''u2'' 1736000001000 ''/'',
                view ''u1'' 1736000002000 ''/pricing'', view ''u3'' 1736000003000 ''/pricing'',
                view ''u1'' 1736000004000 ''/pricing''],
      issued = []\<rparr>"

definition pricing_only_store :: Collection where
  "pricing_only_store =
     \<lparr>events = [view ''u1'' 1736000000000 ''/pricing''], issued = []\<rparr>"

definition sample_request :: FunnelAnalysisRequest where
  "sample_request =
     \<lparr>steps = [homepage, pricing],
      startDate = ''2025-01-01T00:00:00Z'', endDate = ''2025-01-31T23:59:59Z''\<rparr>"

definition no_steps_request :: FunnelAnalysisRequest where
  "no_steps_request =
     \<lparr>steps = [], startDate = ''2025-01-01T00:00:00Z'', endDate = ''2025-01-31T23:59:59Z''\<rparr>"

definition bad_date_request :: FunnelAnalysisRequest where
  "bad_date_request =
     \<lparr>steps = [homepage], startDate = ''invalid-date'', endDate = ''2025-01-31T23:59:59Z''\<rparr>"

section \<open>The store is only read\<close>

lemma aggregate_events: "events (snd (aggregate q c)) = events c"
  by (simp add: aggregate_def)

lemma aggregate_issued: "issued (snd (aggregate q c)) = issued c @ [q]"
  by (simp add: aggregate_def)

lemma aggregate_users: "fst (aggregate q c) = remdups (map user_id (filter (matchStage q) (events c)))"
  by (simp add: aggregate_def)

lemma getUsersForStep_events: "events (snd (getUsersForStep st s e p c)) = events c"
  by (simp add: getUsersForStep_def Let_def aggregate_events)

lemma getUsersForStep_cong:
  "events c = events c' \<Longrightarrow> fst (getUsersForStep st s e p c) = fst (getUsersForStep st s e p c')"
  by (simp add: getUsersForStep_def Let_def aggregate_users)

lemma getUsersForStep_distinct: "distinct (fst (getUsersForStep st s e p c))"
  by (simp add: getUsersForStep_def Let_def aggregate_users)

lemma getUsersForStep_set:
  "set (fst (getUsersForStep st s e p c)) =
     {user_id ev | ev. ev \<in> set (events c) \<and> platform ev = ''web'' \<and> type ev = ''page_view'' \<and>
        s \<le> date ev \<and> date ev \<le> e \<and>
        (if matchType st = ''path'' then path (content ev) = matchValue st
         else hostname (content ev) = matchValue st) \<and>
        (case p of None \<Rightarrow> True | Some us \<Rightarrow> us = [] \<or> user_id ev \<in> set us)}"
  by (auto simp add: getUsersForStep_def Let_def aggregate_users matchStage_def split: option.splits)

lemma sequentialLoop_events:
  "events (snd (sequentialLoop sts i k s e us c)) = events c"
proof (induction sts i k s e us c rule: sequentialLoop.induct)
  case (1 sts i k s e us c)
  show ?case
  proof (cases "i \<le> k \<and> i < length sts")
    case True
    obtain us' c' where g: "getUsersForStep (sts ! i) s e (Some us) c = (us', c')"
      by (cases "getUsersForStep (sts ! i) s e (Some us) c")
    have "events c' = events c"
      using getUsersForStep_events [of "sts ! i" s e "Some us" c] g by simp
    moreover have "events (snd (sequentialLoop sts (Suc i) k s e us' c')) = events c'"
      using "1.IH" True g by simp
    ultimately show ?thesis
      using True g by (simp add: sequentialLoop.simps [of sts i])
  next
    case False
    then show ?thesis by (auto simp add: sequentialLoop.simps [of sts i])
  qed
qed

lemma sequentialLoop_cong:
  "events c = events d \<Longrightarrow>
   fst (sequentialLoop sts i k s e us c) = fst (sequentialLoop sts i k s e us d)"
proof (induction sts i k s e us c arbitrary: d rule: sequentialLoop.induct)
  case (1 sts i k s e us c)
  show ?case
  proof (cases "i \<le> k \<and> i < length sts")
    case True
    obtain us' c' where g: "getUsersForStep (sts ! i) s e (Some us) c = (us', c')"
      by (cases "getUsersForStep (sts ! i) s e (Some us) c")
    obtain us'' d' where h: "getUsersForStep (sts ! i) s e (Some us) d = (us'', d')"
      by (cases "getUsersForStep (sts ! i) s e (Some us) d")
    have same: "us'' = us'"
      using getUsersForStep_cong [OF "1.prems", of "sts ! i" s e "Some us"] g h by simp
    have "events c' = events d'"
      using getUsersForStep_events [of "sts ! i" s e "Some us" c]
            getUsersForStep_events [of "sts ! i" s e "Some us" d] g h "1.prems" by simp
    then have "fst (sequentialLoop sts (Suc i) k s e us' c') = fst (sequentialLoop sts (Suc i) k s e us' d')"
      using "1.IH" True g by simp
    then show ?thesis
      using True g h same
      by (simp add: sequentialLoop.simps [of sts i k s e us c] sequentialLoop.simps [of sts i k s e us d])
  next
    case False
    then show ?thesis
      by (auto simp add: sequentialLoop.simps [of sts i k s e us c] sequentialLoop.simps [of sts i k s e us d])
  qed
qed

lemma getUsersCompletingSequentialSteps_events:
  "events (snd (getUsersCompletingSequentialSteps sts k s e c)) = events c"
proof (cases sts)
  case Nil
  then show ?thesis by (simp add: getUsersCompletingSequentialSteps_def)
next
  case (Cons firstStep rest)
  obtain us c' where g: "getUsersForStep firstStep s e None c = (us, c')"
    by (cases "getUsersForStep firstStep s e None c")
  have "events c' = events c"
    using getUsersForStep_events [of firstStep s e None c] g by simp
  moreover have "events (snd (sequentialLoop sts 1 (nat k) s e us c')) = events c'"
    by (rule sequentialLoop_events)
  ultimately show ?thesis
    using Cons g by (simp add: getUsersCompletingSequentialSteps_def)
qed

lemma getUsersCompletingSequentialSteps_cong:
  assumes "events c = events d"
  shows "fst (getUsersCompletingSequentialSteps sts k s e c) =
         fst (getUsersCompletingSequentialSteps sts k s e d)"
proof (cases sts)
  case Nil
  then show ?thesis by (simp add: getUsersCompletingSequentialSteps_def)
next
  case (Cons firstStep rest)
  obtain us c' where g: "getUsersForStep firstStep s e None c = (us, c')"
    by (cases "getUsersForStep firstStep s e None c")
  obtain vs d' where h: "getUsersForStep firstStep s e None d = (vs, d')"
    by (cases "getUsersForStep firstStep s e None d")
  have same: "vs = us"
    using getUsersForStep_cong [OF assms, of firstStep s e None] g h by simp
  have "events c' = events d'"
    using getUsersForStep_events [of firstStep s e None c]
          getUsersForStep_events [of firstStep s e None d] g h assms by simp
  then have "fst (sequentialLoop sts 1 (nat k) s e us c') = fst (sequentialLoop sts 1 (nat k) s e us d')"
    by (rule sequentialLoop_cong)
  then show ?thesis
    using Cons g h same by (simp add: getUsersCompletingSequentialSteps_def)
qed

section \<open>The sequential chain in closed form\<close>

lemma sequentialLoop_sequentialUsers:
  "0 < i \<Longrightarrow> i \<le> Suc k \<Longrightarrow> k < length sts \<Longrightarrow> events d = events c \<Longrightarrow>
   us = sequentialUsers c sts s e (i - 1) \<Longrightarrow>
   fst (sequentialLoop sts i k s e us d) = Inr (sequentialUsers c sts s e k)"
proof (induction sts i k s e us d rule: sequentialLoop.induct)
  case (1 sts i k s e us d)
  show ?case
  proof (cases "i \<le> k")
    case True
    with "1.prems" have inb: "i < length sts" by simp
    obtain us' d' where g: "getUsersForStep (sts ! i) s e (Some us) d = (us', d')"
      by (cases "getUsersForStep (sts ! i) s e (Some us) d")
    have ev: "events d' = events c"
      using getUsersForStep_events [of "sts ! i" s e "Some us" d] g "1.prems" by simp
    obtain j where j: "i = Suc j" using "1.prems"(1) by (cases i) auto
    have "us' = fst (getUsersForStep (sts ! i) s e (Some us) c)"
      using getUsersForStep_cong [OF "1.prems"(4), of "sts ! i" s e "Some us"] g by simp
    then have us': "us' = sequentialUsers c sts s e (Suc i - 1)"
      using "1.prems"(5) j by simp
    have "fst (sequentialLoop sts (Suc i) k s e us' d') = Inr (sequentialUsers c sts s e k)"
      using "1.IH" [OF True inb g [symmetric] _ _ "1.prems"(3) ev us'] True by simp
    then show ?thesis
      using True inb g by (simp add: sequentialLoop.simps [of sts i])
  next
    case False
    with "1.prems" have "i = Suc k" by simp
    then show ?thesis
      using "1.prems"(5) by (simp add: sequentialLoop.simps [of sts "Suc k"])
  qed
qed

lemma getUsersCompletingSequentialSteps_sequentialUsers:
  assumes "k < length sts" and "events d = events c"
  shows "fst (getUsersCompletingSequentialSteps sts (int k) s e d) = Inr (sequentialUsers c sts s e k)"
proof -
  obtain firstStep rest where sts: "sts = firstStep # rest"
    using assms(1) by (cases sts) auto
  obtain us d' where g: "getUsersForStep firstStep s e None d = (us, d')"
    by (cases "getUsersForStep firstStep s e None d")
  have ev: "events d' = events c"
    using getUsersForStep_events [of firstStep s e None d] g assms(2) by simp
  have us: "us = sequentialUsers c sts s e 0"
    using getUsersForStep_cong [OF assms(2), of firstStep s e None] g sts by simp
  show ?thesis
  proof (cases k)
    case 0
    then show ?thesis
      using sts g us by (simp add: getUsersCompletingSequentialSteps_def)
  next
    case (Suc j)
    then have pos: "0 < k" by simp
    have "fst (sequentialLoop sts 1 k s e us d') = Inr (sequentialUsers c sts s e k)"
      using sequentialLoop_sequentialUsers [of 1 k sts d' c us s e] pos assms(1) ev us by simp
    then show ?thesis
      using sts g pos assms(1) by (simp add: getUsersCompletingSequentialSteps_def)
  qed
qed

section \<open>The rows of the analysis\<close>

lemma row_inv_append:
  assumes "k < length rs" and "row_inv c sts s e rs k"
  shows "row_inv c sts s e (rs @ [r]) k"
proof -
  have "(rs @ [r]) ! k = rs ! k" "(rs @ [r]) ! 0 = rs ! 0" "(rs @ [r]) ! (k - 1) = rs ! (k - 1)"
    using assms(1) by (auto simp add: nth_append)
  then show ?thesis
    using assms(2) by (simp add: row_inv_def)
qed

lemma analyzeLoop_inv:
  "length rs = i \<Longrightarrow> i \<le> length sts \<Longrightarrow> events d = events c \<Longrightarrow>
   (0 < i \<longrightarrow> prev = users (last rs)) \<Longrightarrow>
   (\<forall>k<i. row_inv c sts s e rs k) \<Longrightarrow>
   \<exists>out d'. analyzeLoop sts i s e rs prev d = (Inr out, d') \<and> length out = length sts \<and>
      events d' = events c \<and> (\<forall>k<length sts. row_inv c sts s e out k)"
proof (induction sts i s e rs prev d rule: analyzeLoop.induct)
  case (1 sts i s e rs prev d)
  show ?case
  proof (cases "i < length sts")
    case False
    with "1.prems" have "i = length sts" by simp
    then show ?thesis
      using "1.prems" by (simp add: analyzeLoop.simps [of sts "length sts"])
  next
    case True
    obtain res d' where g: "getUsersCompletingSequentialSteps sts (int i) s e d = (res, d')"
      by (cases "getUsersCompletingSequentialSteps sts (int i) s e d")
    have res: "res = Inr (sequentialUsers c sts s e i)"
      using getUsersCompletingSequentialSteps_sequentialUsers [OF True "1.prems"(3), of s e] g by simp
    have ev: "events d' = events c"
      using getUsersCompletingSequentialSteps_events [of sts "int i" s e d] g "1.prems"(3) by simp
    define us where "us = sequentialUsers c sts s e i"
    define total where "total = (if i = 0 then length us
                           else (case rs of [] \<Rightarrow> 0 | r # _ \<Rightarrow> users r))"
    define convRate :: real where "convRate = (if total > 0 then (real (length us) / real total) * 100 else 0)"
    define stepConvRate :: real where "stepConvRate = (if i = 0 \<or> prev = 0 then 100
                                  else (real (length us) / real prev) * 100)"
    define row where "row = \<lparr>step = name (sts ! i), stepIndex = i, users = length us,
                        conversionRate = convRate,
                        dropoffRate = (if i = 0 then 0 else 100 - stepConvRate),
                        stepConversionRate = stepConvRate\<rparr>"
    have unfold: "analyzeLoop sts i s e rs prev d = analyzeLoop sts (Suc i) s e (rs @ [row]) (length us) d'"
      using True g res
      by (simp add: analyzeLoop.simps [of sts i] Let_def us_def total_def convRate_def
            stepConvRate_def row_def)
    have len: "length (rs @ [row]) = Suc i" using "1.prems"(1) by simp
    have nth_i: "(rs @ [row]) ! i = row" using "1.prems"(1) by (simp add: nth_append)
    have total_eq: "total = users ((rs @ [row]) ! 0)"
    proof (cases "i = 0")
      case True
      then show ?thesis using "1.prems"(1) by (simp add: total_def row_def)
    next
      case False
      then obtain r rest where "rs = r # rest" using "1.prems"(1) by (cases rs) auto
      then show ?thesis using False by (simp add: total_def)
    qed
    have prev_eq: "0 < i \<Longrightarrow> prev = users ((rs @ [row]) ! (i - 1))"
    proof -
      assume pos: "0 < i"
      then have "rs \<noteq> []" using "1.prems"(1) by auto
      then have "last rs = rs ! (i - 1)" using "1.prems"(1) by (simp add: last_conv_nth)
      moreover have "(rs @ [row]) ! (i - 1) = rs ! (i - 1)"
        using pos "1.prems"(1) by (simp add: nth_append)
      ultimately show ?thesis using "1.prems"(4) pos by simp
    qed
    have fields: "step row = name (sts ! i)" "stepIndex row = i" "users row = length us"
      "conversionRate row = convRate" "stepConversionRate row = stepConvRate"
      "dropoffRate row = (if i = 0 then 0 else 100 - stepConvRate)"
      by (simp_all add: row_def)
    have conv: "convRate = (if users ((rs @ [row]) ! 0) > 0
                  then real (length us) / real (users ((rs @ [row]) ! 0)) * 100 else 0)"
      unfolding total_eq [symmetric] convRate_def by (rule refl)
    have sconv: "stepConvRate = (if i = 0 \<or> users ((rs @ [row]) ! (i - 1)) = 0 then 100
                   else real (length us) / real (users ((rs @ [row]) ! (i - 1))) * 100)"
    proof (cases "i = 0")
      case True
      then show ?thesis by (simp add: stepConvRate_def)
    next
      case False
      then have "prev = users ((rs @ [row]) ! (i - 1))" using prev_eq by simp
      then show ?thesis unfolding stepConvRate_def by simp
    qed
    have new: "row_inv c sts s e (rs @ [row]) i"
      unfolding row_inv_def nth_i fields
      using conv sconv us_def by simp
    have all: "\<forall>k<Suc i. row_inv c sts s e (rs @ [row]) k"
    proof (intro allI impI)
      fix k assume "k < Suc i"
      show "row_inv c sts s e (rs @ [row]) k"
      proof (cases "k = i")
        case True
        then show ?thesis using new by simp
      next
        case False
        with \<open>k < Suc i\<close> have "k < length rs" using "1.prems"(1) by simp
        moreover have "row_inv c sts s e rs k"
          using "1.prems"(5) \<open>k < length rs\<close> "1.prems"(1) by simp
        ultimately show ?thesis by (rule row_inv_append)
      qed
    qed
    have last_eq: "0 < Suc i \<longrightarrow> length us = users (last (rs @ [row]))"
      by (simp add: row_def)
    note IH = "1.IH" [OF True g [symmetric] res refl refl refl refl refl,
        folded us_def, folded total_def, folded convRate_def, folded stepConvRate_def,
        folded row_def]
    have "\<exists>out d''. analyzeLoop sts (Suc i) s e (rs @ [row]) (length us) d' = (Inr out, d'') \<and>
            length out = length sts \<and> events d'' = events c \<and>
            (\<forall>k<length sts. row_inv c sts s e out k)"
      using IH [OF len _ ev last_eq all] True by simp
    then show ?thesis using unfold by simp
  qed
qed

lemma analyzeLoop_cong:
  "events c = events d \<Longrightarrow>
   fst (analyzeLoop sts i s e rs prev c) = fst (analyzeLoop sts i s e rs prev d)"
proof (induction sts i s e rs prev c arbitrary: d rule: analyzeLoop.induct)
  case (1 sts i s e rs prev c)
  show ?case
  proof (cases "i < length sts")
    case False
    then show ?thesis
      by (simp add: analyzeLoop.simps [of sts i s e rs prev c] analyzeLoop.simps [of sts i s e rs prev d])
  next
    case True
    obtain res c' where g: "getUsersCompletingSequentialSteps sts (int i) s e c = (res, c')"
      by (cases "getUsersCompletingSequentialSteps sts (int i) s e c")
    obtain res' d' where h: "getUsersCompletingSequentialSteps sts (int i) s e d = (res', d')"
      by (cases "getUsersCompletingSequentialSteps sts (int i) s e d")
    have same: "res' = res"
      using getUsersCompletingSequentialSteps_cong [OF "1.prems", of sts "int i" s e] g h by simp
    have ev: "events c' = events d'"
      using getUsersCompletingSequentialSteps_events [of sts "int i" s e c]
            getUsersCompletingSequentialSteps_events [of sts "int i" s e d] g h "1.prems" by simp
    show ?thesis
    proof (cases res)
      case (Inl err)
      then show ?thesis
        using True g h same
        by (simp add: analyzeLoop.simps [of sts i s e rs prev c] analyzeLoop.simps [of sts i s e rs prev d])
    next
      case (Inr us)
      note IH = "1.IH" [OF True g [symmetric] Inr refl refl refl refl refl ev]
      show ?thesis
        using True g h same Inr IH
        by (simp add: analyzeLoop.simps [of sts i s e rs prev c]
              analyzeLoop.simps [of sts i s e rs prev d] Let_def)
    qed
  qed
qed

lemma analyzeFunnel_cong:
  assumes "events c = events d"
  shows "fst (analyzeFunnel parseDate req c) = fst (analyzeFunnel parseDate req d)"
proof (cases "steps req = [] \<or> parseDate (startDate req) = None \<or> parseDate (endDate req) = None")
  case True
  then show ?thesis
    by (auto simp add: analyzeFunnel_def split: option.splits)
next
  case False
  then obtain s e where se: "parseDate (startDate req) = Some s" "parseDate (endDate req) = Some e"
    by auto
  have "fst (analyzeLoop (steps req) 0 s e [] 0 c) = fst (analyzeLoop (steps req) 0 s e [] 0 d)"
    using assms by (rule analyzeLoop_cong)
  then show ?thesis
    using False se
    by (cases "analyzeLoop (steps req) 0 s e [] 0 c"; cases "analyzeLoop (steps req) 0 s e [] 0 d")
       (auto simp add: analyzeFunnel_def split: sum.splits)
qed

lemma analyzeFunnel_valid:
  assumes "steps req \<noteq> []" and "parseDate (startDate req) = Some s"
    and "parseDate (endDate req) = Some e" and "events d = events c"
  shows "\<exists>r d'. analyzeFunnel parseDate req d = (Inr r, d') \<and>
           length (result_steps r) = length (steps req) \<and> events d' = events c \<and>
           summary r = summarize (result_steps r) \<and>
           (\<forall>k<length (steps req). row_inv c (steps req) s e (result_steps r) k)"
proof -
  obtain out d' where loop: "analyzeLoop (steps req) 0 s e [] 0 d = (Inr out, d')"
    and props: "length out = length (steps req)" "events d' = events c"
      "\<forall>k<length (steps req). row_inv c (steps req) s e out k"
    using analyzeLoop_inv [of "[]" 0 "steps req" d c 0 s e] assms(4) by auto
  have "analyzeFunnel parseDate req d =
          (Inr \<lparr>result_steps = out, summary = summarize out\<rparr>, d')"
    using assms(1-3) loop by (simp add: analyzeFunnel_def)
  then show ?thesis using props by simp
qed

lemma analyzeFunnel_Inr:
  assumes "analyzeFunnel parseDate req c = (Inr r, c')"
  shows "steps req \<noteq> [] \<and>
         (\<exists>s e. parseDate (startDate req) = Some s \<and> parseDate (endDate req) = Some e)"
  using assms by (auto simp add: analyzeFunnel_def split: if_splits option.splits)

lemma analyzeFunnel_events: "events (snd (analyzeFunnel parseDate req c)) = events c"
proof (cases "steps req = [] \<or> parseDate (startDate req) = None \<or> parseDate (endDate req) = None")
  case True
  then show ?thesis
    by (auto simp add: analyzeFunnel_def split: option.splits)
next
  case False
  then obtain s e where "parseDate (startDate req) = Some s" "parseDate (endDate req) = Some e"
    by auto
  with False show ?thesis
    using analyzeFunnel_valid [of req parseDate s e c c] by auto
qed

lemma foldl_plus_sum_list: "foldl (+) a xs = a + sum_list (xs :: real list)"
  by (induction xs arbitrary: a) simp_all

lemma sum_list_drop1_nth:
  "sum_list (map f (drop 1 rs)) = (\<Sum>k = 1..<length rs. (f (rs ! k) :: real))"
proof (cases rs)
  case Nil
  then show ?thesis by simp
next
  case (Cons x xs)
  have "sum_list (map f xs) = (\<Sum>k = 0..<length xs. f (xs ! k))"
    by (simp add: sum_list_sum_nth)
  also have "\<dots> = (\<Sum>k = Suc 0..<Suc (length xs). f ((x # xs) ! k))"
    by (simp only: sum.shift_bounds_Suc_ivl nth_Cons_Suc)
  finally show ?thesis using Cons by simp
qed

section \<open>The funnel chain\<close>

text \<open>
  C1 (monotonicity of the chain: \<open>users(i) \<le> users(i - 1)\<close> for every \<open>i > 0\<close>).
  \<open>getUsersCompletingSequentialSteps\<close> is documented to return the users who completed
  a step and all previous steps, but it hands an empty \<open>usersAtCurrentStep\<close> on to
  \<open>getUsersForStep\<close>, which then applies no restriction. Nobody viewed the home page
  in \<open>pricing_only_store\<close> and one user viewed the pricing page: the analysis reports
  0 users for step 0 and 1 user for step 1.
\<close>

theorem analyzeFunnel_users_grow_after_empty_step:
  "fst (analyzeFunnel sample_parse sample_request pricing_only_store) =
     Inr \<lparr>result_steps =
            [\<lparr>step = ''Homepage'', stepIndex = 0, users = 0, conversionRate = 0,
              dropoffRate = 0, stepConversionRate = 100\<rparr>,
             \<lparr>step = ''Pricing'', stepIndex = 1, users = 1, conversionRate = 0,
              dropoffRate = 0, stepConversionRate = 100\<rparr>],
          summary = \<lparr>totalUsers = 0, completedUsers = 1, overallConversionRate = 0,
                     avgStepConversionRate = 100\<rparr>\<rparr>"
  by code_simp

text \<open>
  C2 (zero-user degeneracy: if \<open>users(0) = 0\<close> then every later step has 0 users and
  every \<open>conversionRate\<close> is 0). On the same run the conversion rates are all 0, but
  the user counts are 0 and then 1.
\<close>

theorem analyzeFunnel_zero_first_step_nonzero_later:
  "map_sum message (\<lambda>r. (map users (result_steps r), map conversionRate (result_steps r)))
     (fst (analyzeFunnel sample_parse sample_request pricing_only_store)) =
   Inr ([0, 1], [0, 0])"
  by code_simp

section \<open>The resolver\<close>

text \<open>
  C3 (empty-candidate fallthrough): calling \<open>getUsersForStep\<close> with
  \<open>previousStepUsers\<close> equal to the empty array gives the same users, and issues the
  same query, as calling it without that argument.
\<close>

theorem getUsersForStep_empty_previous_users:
  "getUsersForStep st start end (Some []) c = getUsersForStep st start end None c"
  by (simp add: getUsersForStep_def)

text \<open>The pricing step on the sample store, with an empty array and with none.\<close>

theorem getUsersForStep_empty_previous_users_witness:
  "getUsersForStep pricing jan_start jan_end (Some []) sample_store =
     getUsersForStep pricing jan_start jan_end None sample_store \<and>
   fst (getUsersForStep pricing jan_start jan_end (Some []) sample_store) = [''u3'', ''u1'']"
proof -
  have "fst (getUsersForStep pricing jan_start jan_end None sample_store) = [''u3'', ''u1'']"
    by code_simp
  then show ?thesis
    using getUsersForStep_empty_previous_users [of pricing jan_start jan_end sample_store]
    by simp
qed

text \<open>
  C4 (resolver output: exactly the matching \<open>user_id\<close>s, restricted to the members of
  the candidate set when one is provided). With the empty array provided, as
  \<open>getUsersCompletingSequentialSteps\<close> provides it after a step that nobody reached,
  \<open>getUsersForStep\<close> returns \<open>u1\<close>, which is not a member of the candidate set.
\<close>

theorem getUsersForStep_empty_candidates_unrestricted:
  "fst (getUsersForStep pricing jan_start jan_end (Some []) pricing_only_store) = [''u1''] \<and>
   ''u1'' \<notin> set ([] :: string list)"
proof -
  have "fst (getUsersForStep pricing jan_start jan_end (Some []) pricing_only_store) = [''u1'']"
    by code_simp
  then show ?thesis by simp
qed

section \<open>The analysis\<close>

text \<open>Every successful analysis comes from a valid request and satisfies the row invariant.\<close>

lemma analyzeFunnel_rows:
  assumes "analyzeFunnel parseDate req c = (Inr r, c')"
  shows "\<exists>s e. steps req \<noteq> [] \<and> parseDate (startDate req) = Some s \<and>
           parseDate (endDate req) = Some e \<and>
           length (result_steps r) = length (steps req) \<and>
           summary r = summarize (result_steps r) \<and>
           (\<forall>k<length (steps req). row_inv c (steps req) s e (result_steps r) k)"
proof -
  obtain s e where valid: "steps req \<noteq> []" "parseDate (startDate req) = Some s"
      "parseDate (endDate req) = Some e"
    using analyzeFunnel_Inr [OF assms] by auto
  have "\<exists>r' d'. analyzeFunnel parseDate req c = (Inr r', d') \<and>
           length (result_steps r') = length (steps req) \<and> events d' = events c \<and>
           summary r' = summarize (result_steps r') \<and>
           (\<forall>k<length (steps req). row_inv c (steps req) s e (result_steps r') k)"
    using valid by (intro analyzeFunnel_valid) simp_all
  then show ?thesis using assms valid by auto
qed

text \<open>The analysis of the sample request on the sample store.\<close>

lemma sample_run:
  "fst (analyzeFunnel sample_parse sample_request sample_store) =
     Inr \<lparr>result_steps =
            [\<lparr>step = ''Homepage'', stepIndex = 0, users = 2, conversionRate = 100,
              dropoffRate = 0, stepConversionRate = 100\<rparr>,
             \<lparr>step = ''Pricing'', stepIndex = 1, users = 1, conversionRate = 50,
              dropoffRate = 50, stepConversionRate = 50\<rparr>],
          summary = \<lparr>totalUsers = 2, completedUsers = 1, overallConversionRate = 50,
                     avgStepConversionRate = 50\<rparr>\<rparr>"
  by code_simp

lemma fst_pair: "fst p = a \<Longrightarrow> p = (a, snd p)"
  by (cases p) simp

text \<open>
  C5 (per-step derived rates): in every result of \<open>analyzeFunnel\<close>,
  \<open>stepConversionRate(i)\<close> is 100 when \<open>i = 0\<close> or when \<open>users(i - 1) = 0\<close>, and
  otherwise \<open>users(i) / users(i - 1) * 100\<close>; \<open>dropoffRate(i)\<close> is 0 when \<open>i = 0\<close>
  and otherwise \<open>100 - stepConversionRate(i)\<close>.
\<close>

theorem analyzeFunnel_step_rates:
  assumes "analyzeFunnel parseDate req c = (Inr r, c')" and "i < length (result_steps r)"
  shows "stepConversionRate (result_steps r ! i) =
           (if i = 0 \<or> users (result_steps r ! (i - 1)) = 0 then 100
            else real (users (result_steps r ! i)) / real (users (result_steps r ! (i - 1))) * 100) \<and>
         dropoffRate (result_steps r ! i) =
           (if i = 0 then 0 else 100 - stepConversionRate (result_steps r ! i))"
proof -
  obtain s e where "length (result_steps r) = length (steps req)"
      and "\<forall>k<length (steps req). row_inv c (steps req) s e (result_steps r) k"
    using analyzeFunnel_rows [OF assms(1)] by auto
  then have "row_inv c (steps req) s e (result_steps r) i"
    using assms(2) by simp
  then show ?thesis by (simp add: row_inv_def)
qed

text \<open>Step 1 of the sample analysis: 2 users, then 1.\<close>

theorem analyzeFunnel_step_rates_witness:
  "\<exists>r c'. analyzeFunnel sample_parse sample_request sample_store = (Inr r, c') \<and>
     1 < length (result_steps r) \<and>
     map users (result_steps r) = [2, 1] \<and>
     stepConversionRate (result_steps r ! 1) = 1 / 2 * 100 \<and>
     dropoffRate (result_steps r ! 1) = 100 - stepConversionRate (result_steps r ! 1)"
proof -
  obtain r where r: "fst (analyzeFunnel sample_parse sample_request sample_store) = Inr r"
      and us: "map users (result_steps r) = [2, 1]"
    using sample_run by simp
  note run = fst_pair [OF r]
  have len: "1 < length (result_steps r)"
    using us by (metis length_map length_Cons list.size(3) one_less_numeral_iff
        semiring_norm(76) numeral_2_eq_2 One_nat_def lessI)
  have u0: "users (result_steps r ! 0) = 2" and u1: "users (result_steps r ! 1) = 1"
    using us len by (metis nth_map nth_Cons_0 less_trans zero_less_one,
        metis nth_map nth_Cons_0 nth_Cons_Suc One_nat_def)
  have "stepConversionRate (result_steps r ! 1) = 1 / 2 * 100 \<and>
        dropoffRate (result_steps r ! 1) = 100 - stepConversionRate (result_steps r ! 1)"
    using analyzeFunnel_step_rates [OF run len] u0 u1 by simp
  then have sc: "stepConversionRate (result_steps r ! 1) = 1 / 2 * 100"
    and dr: "dropoffRate (result_steps r ! 1) = 100 - stepConversionRate (result_steps r ! 1)"
    by (rule conjunct1, rule conjunct2)
  show ?thesis
  proof (rule exI [of _ r],
         rule exI [of _ "snd (analyzeFunnel sample_parse sample_request sample_store)"],
         intro conjI)
    show "analyzeFunnel sample_parse sample_request sample_store =
            (Inr r, snd (analyzeFunnel sample_parse sample_request sample_store))"
      by (rule run)
    show "1 < length (result_steps r)" by (rule len)
    show "map users (result_steps r) = [2, 1]" by (rule us)
    show "stepConversionRate (result_steps r ! 1) = 1 / 2 * 100" by (rule sc)
    show "dropoffRate (result_steps r ! 1) = 100 - stepConversionRate (result_steps r ! 1)"
      by (rule dr)
  qed
qed

text \<open>The fold of the specification never grows: each set is within the one before.\<close>

lemma spec_candidates_subset:
  "set (spec_candidates evs sts start end (Suc i)) \<subseteq> set (spec_candidates evs sts start end i)"
  by (auto simp add: spec_resolveStepUsers_def)

text \<open>
  C6 (orchestration refinement: the per-step user sets of \<open>analyzeFunnel\<close>, computed by
  \<open>getUsersCompletingSequentialSteps(steps, i, ...)\<close>, equal the sets of the incremental
  fold of the specification). On \<open>pricing_only_store\<close> the fold gives the empty set for
  both steps, while the repository call for step 1 returns \<open>u1\<close> and the analysis counts
  0 users and then 1.
\<close>

theorem analyzeFunnel_departs_from_spec_fold:
  "spec_candidates (events pricing_only_store) (steps sample_request) jan_start jan_end 0 = [] \<and>
   spec_candidates (events pricing_only_store) (steps sample_request) jan_start jan_end 1 = [] \<and>
   fst (getUsersCompletingSequentialSteps (steps sample_request) 0 jan_start jan_end
          pricing_only_store) = Inr [] \<and>
   fst (getUsersCompletingSequentialSteps (steps sample_request) 1 jan_start jan_end
          pricing_only_store) = Inr [''u1''] \<and>
   map_sum message (\<lambda>r. map users (result_steps r))
     (fst (analyzeFunnel sample_parse sample_request pricing_only_store)) = Inr [0, 1]"
proof -
  have "spec_candidates (events pricing_only_store) (steps sample_request) jan_start jan_end 0 = []"
    by code_simp
  moreover
  have "spec_candidates (events pricing_only_store) (steps sample_request) jan_start jan_end 1 = []"
    by code_simp
  moreover
  have "fst (getUsersCompletingSequentialSteps (steps sample_request) 0 jan_start jan_end
          pricing_only_store) = Inr []"
    by code_simp
  moreover
  have "fst (getUsersCompletingSequentialSteps (steps sample_request) 1 jan_start jan_end
          pricing_only_store) = Inr [''u1'']"
    by code_simp
  moreover
  have "map_sum message (\<lambda>r. map users (result_steps r))
     (fst (analyzeFunnel sample_parse sample_request pricing_only_store)) = Inr [0, 1]"
    by code_simp
  ultimately show ?thesis by (intro conjI)
qed

text \<open>
  C7 (summary statistics): in every result of \<open>analyzeFunnel\<close>, \<open>totalUsers\<close> is
  \<open>users(0)\<close>, \<open>completedUsers\<close> is \<open>users(last)\<close>, \<open>overallConversionRate\<close> is
  \<open>completedUsers / totalUsers * 100\<close> (0 when \<open>totalUsers = 0\<close>), and
  \<open>avgStepConversionRate\<close> is the arithmetic mean of \<open>stepConversionRate\<close> over the
  steps \<open>1..last\<close>, or 100 when there is only one step.
\<close>

theorem analyzeFunnel_summary:
  assumes "analyzeFunnel parseDate req c = (Inr r, c')"
  shows "length (result_steps r) = length (steps req) \<and> 0 < length (result_steps r) \<and>
         totalUsers (summary r) = users (result_steps r ! 0) \<and>
         completedUsers (summary r) = users (result_steps r ! (length (result_steps r) - 1)) \<and>
         overallConversionRate (summary r) =
           (if totalUsers (summary r) = 0 then 0
            else real (completedUsers (summary r)) / real (totalUsers (summary r)) * 100) \<and>
         avgStepConversionRate (summary r) =
           (if length (result_steps r) = 1 then 100
            else (\<Sum>k = 1..<length (result_steps r). stepConversionRate (result_steps r ! k)) /
                 real (length (result_steps r) - 1))"
proof -
  define rs where "rs = result_steps r"
  obtain s e where ne: "steps req \<noteq> []" and len: "length rs = length (steps req)"
      and sm: "summary r = summarize rs"
    using analyzeFunnel_rows [OF assms] rs_def by auto
  from ne len obtain x xs where cons: "rs = x # xs" by (cases rs) auto
  have pos: "0 < length rs" using cons by simp
  have total: "totalUsers (summarize rs) = users (rs ! 0)"
    using cons by (simp add: summarize_def Let_def)
  have completed: "completedUsers (summarize rs) = users (rs ! (length rs - 1))"
    using cons by (simp add: summarize_def Let_def last_conv_nth)
  have overall: "overallConversionRate (summarize rs) =
           (if totalUsers (summarize rs) = 0 then 0
            else real (completedUsers (summarize rs)) / real (totalUsers (summarize rs)) * 100)"
    by (simp add: summarize_def Let_def)
  have sum: "foldl (+) 0 (map stepConversionRate (drop 1 rs)) =
               (\<Sum>k = 1..<length rs. stepConversionRate (rs ! k))"
    by (simp only: foldl_plus_sum_list sum_list_drop1_nth add_0)
  have avg: "avgStepConversionRate (summarize rs) =
           (if length rs = 1 then 100
            else (\<Sum>k = 1..<length rs. stepConversionRate (rs ! k)) / real (length rs - 1))"
  proof (cases "length rs = 1")
    case True
    then show ?thesis by (simp add: summarize_def Let_def)
  next
    case False
    with pos have "1 < length rs" by arith
    then have "0 < length (map stepConversionRate (drop 1 rs))" by simp
    moreover have "length (map stepConversionRate (drop 1 rs)) = length rs - 1" by simp
    ultimately show ?thesis
      using False sum by (simp add: summarize_def Let_def)
  qed
  show ?thesis
    using len pos total completed overall avg
    unfolding sm rs_def [symmetric] by simp
qed

text \<open>The summary of the sample analysis.\<close>

theorem analyzeFunnel_summary_witness:
  "\<exists>r c'. analyzeFunnel sample_parse sample_request sample_store = (Inr r, c') \<and>
     map users (result_steps r) = [2, 1] \<and>
     map stepConversionRate (result_steps r) = [100, 50] \<and>
     totalUsers (summary r) = 2 \<and> completedUsers (summary r) = 1 \<and>
     overallConversionRate (summary r) = 1 / 2 * 100 \<and>
     avgStepConversionRate (summary r) = 50 / 1"
proof -
  obtain r where r: "fst (analyzeFunnel sample_parse sample_request sample_store) = Inr r"
      and us: "map users (result_steps r) = [2, 1]"
      and sc: "map stepConversionRate (result_steps r) = [100, 50]"
    using sample_run by simp
  note run = fst_pair [OF r]
  note sm = analyzeFunnel_summary [OF run]
  have len: "length (result_steps r) = 2"
    using us by (metis length_map length_Cons list.size(3) numeral_2_eq_2)
  have u0: "users (result_steps r ! 0) = 2" and u1: "users (result_steps r ! 1) = 1"
    using us len by (metis nth_map nth_Cons_0 zero_less_numeral,
        metis nth_map nth_Cons_0 nth_Cons_Suc One_nat_def one_less_numeral_iff semiring_norm(76))
  have s1: "stepConversionRate (result_steps r ! 1) = 50"
    using sc len by (metis nth_map nth_Cons_0 nth_Cons_Suc One_nat_def one_less_numeral_iff semiring_norm(76))
  have t: "totalUsers (summary r) = 2" using sm u0 by simp
  have c: "completedUsers (summary r) = 1" using sm u1 len by simp
  have o: "overallConversionRate (summary r) = 1 / 2 * 100" using sm t c by simp
  have a: "avgStepConversionRate (summary r) = 50 / 1"
    using sm len s1 by (simp add: numeral_2_eq_2)
  show ?thesis
  proof (rule exI [of _ r],
         rule exI [of _ "snd (analyzeFunnel sample_parse sample_request sample_store)"],
         intro conjI)
    show "analyzeFunnel sample_parse sample_request sample_store =
            (Inr r, snd (analyzeFunnel sample_parse sample_request sample_store))"
      by (rule run)
    show "map users (result_steps r) = [2, 1]" by (rule us)
    show "map stepConversionRate (result_steps r) = [100, 50]" by (rule sc)
    show "totalUsers (summary r) = 2" by (rule t)
    show "completedUsers (summary r) = 1" by (rule c)
    show "overallConversionRate (summary r) = 1 / 2 * 100" by (rule o)
    show "avgStepConversionRate (summary r) = 50 / 1" by (rule a)
  qed
qed

text \<open>
  C8 (validation fail-fast): with an empty \<open>steps\<close> array \<open>analyzeFunnel\<close> fails with
  "At least one funnel step is required"; with steps but a \<open>startDate\<close> or \<open>endDate\<close>
  that does not parse it fails with "Invalid date format". In both cases the collection
  comes back as it was: no query was issued.
\<close>

theorem analyzeFunnel_validation:
  "(steps req = [] \<longrightarrow>
      analyzeFunnel parseDate req c = (Inl AtLeastOneStep, c)) \<and>
   (steps req \<noteq> [] \<and> (parseDate (startDate req) = None \<or> parseDate (endDate req) = None) \<longrightarrow>
      analyzeFunnel parseDate req c = (Inl InvalidDateFormat, c)) \<and>
   message AtLeastOneStep = ''At least one funnel step is required'' \<and>
   message InvalidDateFormat = ''Invalid date format''"
  by (auto simp add: analyzeFunnel_def split: option.splits)

text \<open>A request without steps, and one whose start date is \<open>invalid-date\<close>.\<close>

theorem analyzeFunnel_validation_witness:
  "steps no_steps_request = [] \<and>
   analyzeFunnel sample_parse no_steps_request sample_store = (Inl AtLeastOneStep, sample_store) \<and>
   steps bad_date_request \<noteq> [] \<and> sample_parse (startDate bad_date_request) = None \<and>
   analyzeFunnel sample_parse bad_date_request sample_store = (Inl InvalidDateFormat, sample_store) \<and>
   issued (snd (analyzeFunnel sample_parse bad_date_request sample_store)) = []"
proof -
  have a: "steps no_steps_request = []" by (simp add: no_steps_request_def)
  have b: "steps bad_date_request \<noteq> []" by (simp add: bad_date_request_def)
  have d: "sample_parse (startDate bad_date_request) = None"
    by (simp add: bad_date_request_def sample_parse_def)
  have e: "issued sample_store = []" by (simp add: sample_store_def)
  show ?thesis
    using a b d e
      analyzeFunnel_validation [of no_steps_request sample_parse sample_store]
      analyzeFunnel_validation [of bad_date_request sample_parse sample_store]
    by simp
qed

text \<open>
  C9 (idempotence): two invocations of \<open>analyzeFunnel\<close> with the same request, the
  second on the collection the first left behind, return the same result (the same error,
  or equal step lists and summaries), and the documents of the collection are unchanged.
\<close>

theorem analyzeFunnel_deterministic:
  assumes "analyzeFunnel parseDate req c = (r1, c1)"
    and "analyzeFunnel parseDate req c1 = (r2, c2)"
  shows "r2 = r1 \<and> events c1 = events c \<and> events c2 = events c"
proof -
  have e1: "events c1 = events c"
    using analyzeFunnel_events [of parseDate req c] assms(1) by simp
  have e2: "events c2 = events c1"
    using analyzeFunnel_events [of parseDate req c1] assms(2) by simp
  have "fst (analyzeFunnel parseDate req c1) = fst (analyzeFunnel parseDate req c)"
    using e1 by (rule analyzeFunnel_cong)
  then have "r2 = r1" using assms by simp
  then show ?thesis using e1 e2 by simp
qed

text \<open>The sample request, analysed twice in a row.\<close>

theorem analyzeFunnel_deterministic_witness:
  "\<exists>r1 c1 r2 c2. analyzeFunnel sample_parse sample_request sample_store = (r1, c1) \<and>
     analyzeFunnel sample_parse sample_request c1 = (r2, c2) \<and>
     r2 = r1 \<and> events c1 = events sample_store \<and> events c2 = events sample_store \<and>
     map_sum message (\<lambda>r. map users (result_steps r)) r1 = Inr [2, 1]"
proof -
  obtain r1 c1 where first: "analyzeFunnel sample_parse sample_request sample_store = (r1, c1)"
    by (cases "analyzeFunnel sample_parse sample_request sample_store")
  obtain r2 c2 where second: "analyzeFunnel sample_parse sample_request c1 = (r2, c2)"
    by (cases "analyzeFunnel sample_parse sample_request c1")
  note det = analyzeFunnel_deterministic [OF first second]
  have val: "map_sum message (\<lambda>r. map users (result_steps r)) r1 = Inr [2, 1]"
    using sample_run first by simp
  show ?thesis
  proof (rule exI [of _ r1], rule exI [of _ c1], rule exI [of _ r2], rule exI [of _ c2],
         intro conjI)
    show "analyzeFunnel sample_parse sample_request sample_store = (r1, c1)" by (rule first)
    show "analyzeFunnel sample_parse sample_request c1 = (r2, c2)" by (rule second)
    show "r2 = r1" using det by (rule conjunct1)
    show "events c1 = events sample_store" using det by simp
    show "events c2 = events sample_store" using det by simp
    show "map_sum message (\<lambda>r. map users (result_steps r)) r1 = Inr [2, 1]" by (rule val)
  qed
qed

text \<open>
  C10 (a \<open>matchType\<close> other than \<open>path\<close> means hostname): for every step whose
  \<open>matchType\<close> is any string but \<open>path\<close>, \<open>getUsersForStep\<close> returns the users
  of the events whose hostname equals \<open>matchValue\<close>; the query it issues sets
  \<open>content.hostname\<close> and leaves \<open>content.path\<close> unset; and the call is the same as
  for \<open>matchType = hostname\<close>. No \<open>matchType\<close> is rejected.
\<close>

theorem getUsersForStep_non_path_matches_hostname:
  assumes "matchType st \<noteq> ''path''"
  shows "set (fst (getUsersForStep st start end cand c)) =
           {user_id ev | ev. ev \<in> set (events c) \<and>
              platform ev = ''web'' \<and> type ev = ''page_view'' \<and>
              start \<le> date ev \<and> date ev \<le> end \<and>
              hostname (content ev) = matchValue st \<and>
              (case cand of None \<Rightarrow> True | Some us \<Rightarrow> us = [] \<or> user_id ev \<in> set us)} \<and>
         (\<exists>q. issued (snd (getUsersForStep st start end cand c)) = issued c @ [q] \<and>
              q_content_path q = None \<and> q_content_hostname q = Some (matchValue st)) \<and>
         getUsersForStep st start end cand c =
           getUsersForStep (st\<lparr>matchType := ''hostname''\<rparr>) start end cand c"
proof -
  have branch: "\<And>ev. (if matchType st = ''path'' then path (content ev) = matchValue st
              else hostname (content ev) = matchValue st) =
             (hostname (content ev) = matchValue st)"
    using assms by simp
  note a = getUsersForStep_set [of st start "end" cand c, unfolded branch]
  have b: "\<exists>q. issued (snd (getUsersForStep st start end cand c)) = issued c @ [q] \<and>
              q_content_path q = None \<and> q_content_hostname q = Some (matchValue st)"
    using assms by (simp add: getUsersForStep_def aggregate_def Let_def split: option.splits)
  have d: "getUsersForStep st start end cand c =
           getUsersForStep (st\<lparr>matchType := ''hostname''\<rparr>) start end cand c"
    using assms by (simp add: getUsersForStep_def)
  show ?thesis using a b d by (intro conjI)
qed

text \<open>A step with \<open>matchType = regex\<close> on the sample store.\<close>

theorem getUsersForStep_non_path_matches_hostname_witness:
  "matchType regex_step \<noteq> ''path'' \<and>
   fst (getUsersForStep regex_step jan_start jan_end None sample_store) = [''u2'', ''u3'', ''u1''] \<and>
   getUsersForStep regex_step jan_start jan_end None sample_store =
     getUsersForStep (regex_step\<lparr>matchType := ''hostname''\<rparr>) jan_start jan_end None sample_store"
proof -
  have h: "matchType regex_step \<noteq> ''path''" by (simp add: regex_step_def)
  have v: "fst (getUsersForStep regex_step jan_start jan_end None sample_store) = [''u2'', ''u3'', ''u1'']"
    by code_simp
  show ?thesis
    using h v getUsersForStep_non_path_matches_hostname [OF h, of jan_start jan_end None sample_store]
    by (intro conjI) simp_all
qed

end
